theory Spec2Isabelle
  imports Main "HOL-Library.Word"
begin

unbundle bit_operations_syntax

section \<open>Data model\<close>

text \<open>
  The codec of \<^verbatim>\<open>src/base64.cpp\<close>. A \<^verbatim>\<open>std::string\<close> and a
  \<^verbatim>\<open>std::string_view\<close> are sequences of 8-bit characters: \<^typ>\<open>string\<close>. The value
  of a character as \<^verbatim>\<open>unsigned char\<close> is \<open>of_char c\<close> (a number below 256), and
  \<^verbatim>\<open>static_cast<char>(n)\<close> is \<open>char_of n\<close>, which keeps the low 8 bits of \<open>n\<close>.

  Integer widths are those of the LP64 and LLP64 platforms: \<^verbatim>\<open>unsigned int\<close> has 32
  bits and is a \<^typ>\<open>32 word\<close>; \<^verbatim>\<open>size_t\<close> has 64 bits. The only \<^verbatim>\<open>size_t\<close>
  values that the code computes are string lengths, positions that are compared with a
  length before use, and 6-bit table values, all far below \<open>2 ^ 64\<close>, so they are \<^typ>\<open>nat\<close>.
  The \<^verbatim>\<open>int\<close> values of the bit arithmetic on promoted bytes lie between 0 and 255
  and are \<^typ>\<open>nat\<close> as well.

  The two exceptions of the code are the two values of \<open>error\<close>:
  \<^verbatim>\<open>std::runtime_error("Input is not valid base64-encoded data.")\<close> thrown by
  \<^verbatim>\<open>pos_of_char\<close>, and the \<^verbatim>\<open>std::out_of_range\<close> thrown by the bounds-checked
  \<^verbatim>\<open>at\<close>.
\<close>

datatype error = InvalidInput | OutOfRange

definition encode_table :: string where
  "encode_table =
     ''ABCDEFGHIJKLMNOPQRSTUVWXYZ'' @
     ''abcdefghijklmnopqrstuvwxyz'' @
     ''0123456789'' @
     ''+/''"

definition encode_table_url :: string where
  "encode_table_url =
     ''ABCDEFGHIJKLMNOPQRSTUVWXYZ'' @
     ''abcdefghijklmnopqrstuvwxyz'' @
     ''0123456789'' @
     ''-_''"

definition max_encode_char :: nat where
  "max_encode_char = of_char (CHR ''z'') + 1"

definition decode_placeholder :: nat where
  "decode_placeholder = 0xff"

section \<open>The reverse lookup table\<close>

text \<open>
  \<^verbatim>\<open>std::for_each\<close> of \<^verbatim>\<open>generate_decode_table\<close>: the lambda stores the running
  \<^verbatim>\<open>offset\<close> at the character's code with the bounds-checked \<^verbatim>\<open>ret.at\<close> and
  increments it.
\<close>

fun for_each_store :: "string \<Rightarrow> nat list \<Rightarrow> nat \<Rightarrow> error + nat list" where
  "for_each_store [] ret offset = Inr ret"
| "for_each_store (ch # str) ret offset =
     (if of_char ch < length ret
      then for_each_store str (ret[of_char ch := offset]) (offset + 1)
      else Inl OutOfRange)"

definition generate_decode_table :: "string \<Rightarrow> error + nat list" where
  "generate_decode_table str =
     for_each_store str (replicate max_encode_char decode_placeholder) 0"

text \<open>
  \<^verbatim>\<open>decode_table\<close> is a \<^verbatim>\<open>static constexpr\<close> object initialised with
  \<^verbatim>\<open>generate_decode_table(encode_table)\<close>: a constant.
\<close>

definition decode_table :: "nat list" where
  "decode_table = (case generate_decode_table encode_table of Inr t \<Rightarrow> t | Inl e \<Rightarrow> [])"

text \<open>
  \<^verbatim>\<open>static_cast<size_t>(chr)\<close> of a character with the high bit set is at least 128
  where \<^verbatim>\<open>char\<close> is unsigned and at least \<open>2 ^ 64 - 128\<close> where it is signed: in both
  cases not below \<^verbatim>\<open>max_encode_char\<close>, as \<open>of_char chr\<close> is.
\<close>

definition pos_of_char :: "char \<Rightarrow> error + nat" where
  "pos_of_char chr =
     (if of_char chr \<ge> max_encode_char then Inl InvalidInput
      else (let val = decode_table ! of_char chr in
            if val = decode_placeholder then Inl InvalidInput
            else Inr val))"

section \<open>Line breaks\<close>

text \<open>
  The loop of \<^verbatim>\<open>insert_linebreaks\<close>. Nothing in it excludes \<^verbatim>\<open>distance = 0\<close>, where it
  does not end, so it is a partial function: \<open>None\<close> is a loop that never exits.
\<close>

partial_function (option) insert_loop :: "string \<Rightarrow> nat \<Rightarrow> nat \<Rightarrow> string option" where
  "insert_loop str pos distance =
     (if pos < length str
      then insert_loop (take pos str @ [CHR 0x0A] @ drop pos str) (pos + (distance + 1)) distance
      else Some str)"

declare insert_loop.simps [code]

definition insert_linebreaks :: "string \<Rightarrow> nat \<Rightarrow> string option" where
  "insert_linebreaks str distance =
     (if length str = 0 then Some []
      else insert_loop str distance distance)"

section \<open>Encoder\<close>

text \<open>
  One pass through the body of the \<^verbatim>\<open>while\<close> loop of \<^verbatim>\<open>base64_encode\<close>: the
  characters pushed to \<^verbatim>\<open>ret\<close> for the chunk at \<^verbatim>\<open>pos\<close>. The sums
  \<^verbatim>\<open>pos + 1\<close> and \<^verbatim>\<open>pos + 2\<close> are \<^verbatim>\<open>unsigned int\<close> sums and wrap at \<open>2 ^ 32\<close>,
  in the comparisons with \<^verbatim>\<open>in_len\<close> as well as in the subscripts.
\<close>

definition encode_chunk :: "string \<Rightarrow> bool \<Rightarrow> 32 word \<Rightarrow> string" where
  "encode_chunk s url pos =
     (let in_len = length s;
          trailing_char = (if url then CHR ''.'' else CHR ''='');
          base64_chars = (if url then encode_table_url else encode_table);
          byte = (\<lambda>i :: 32 word. (of_char (s ! unat i) :: nat))
      in
        base64_chars ! (drop_bit 2 (byte (pos + 0) AND 0xfc)) #
        (if unat (pos + 1) < in_len then
           base64_chars ! (push_bit 4 (byte (pos + 0) AND 0x03) + drop_bit 4 (byte (pos + 1) AND 0xf0)) #
           (if unat (pos + 2) < in_len then
              [base64_chars ! (push_bit 2 (byte (pos + 1) AND 0x0f) + drop_bit 6 (byte (pos + 2) AND 0xc0)),
               base64_chars ! (byte (pos + 2) AND 0x3f)]
            else
              [base64_chars ! (push_bit 2 (byte (pos + 1) AND 0x0f)),
               trailing_char])
         else
           [base64_chars ! (push_bit 4 (byte (pos + 0) AND 0x03)),
            trailing_char,
            trailing_char]))"

text \<open>
  The loop itself. \<^verbatim>\<open>pos\<close> is an \<^verbatim>\<open>unsigned int\<close> and \<^verbatim>\<open>pos += 3\<close> wraps at
  \<open>2 ^ 32\<close>, while \<^verbatim>\<open>in_len\<close> is a \<^verbatim>\<open>size_t\<close>; \<open>None\<close> is a loop that never exits.
\<close>

partial_function (option) encode_loop :: "string \<Rightarrow> bool \<Rightarrow> 32 word \<Rightarrow> string \<Rightarrow> string option" where
  "encode_loop s url pos ret =
     (if unat pos < length s
      then encode_loop s url (pos + 3) (ret @ encode_chunk s url pos)
      else Some ret)"

declare encode_loop.simps [code]

definition base64_encode :: "string \<Rightarrow> bool \<Rightarrow> string option" where
  "base64_encode s url = encode_loop s url 0 []"

definition base64_encode_pem :: "string \<Rightarrow> string option" where
  "base64_encode_pem s =
     (case base64_encode s False of None \<Rightarrow> None | Some e \<Rightarrow> insert_linebreaks e 64)"

definition base64_encode_mime :: "string \<Rightarrow> string option" where
  "base64_encode_mime s =
     (case base64_encode s False of None \<Rightarrow> None | Some e \<Rightarrow> insert_linebreaks e 76)"

section \<open>Decoder\<close>

text \<open>\<^verbatim>\<open>std::string_view::at\<close>: the bounds-checked read.\<close>

definition at :: "string \<Rightarrow> nat \<Rightarrow> error + char" where
  "at s i = (if i < length s then Inr (s ! i) else Inl OutOfRange)"

text \<open>
  One pass through the body of the \<^verbatim>\<open>while\<close> loop of \<^verbatim>\<open>base64_decode\<close>: the bytes
  pushed to \<^verbatim>\<open>ret\<close> for the chunk at \<^verbatim>\<open>pos\<close>, or the exception that leaves the
  function. The reads and lookups are in the order of the source: the second character
  first, then the first one. The reads of the third and fourth character come after the
  comparison of their position with the length, so they cannot fail.
\<close>

definition decode_chunk :: "string \<Rightarrow> nat \<Rightarrow> error + string" where
  "decode_chunk s pos =
     (case at s (pos + 1) of Inl e \<Rightarrow> Inl e | Inr c1 \<Rightarrow>
      case pos_of_char c1 of Inl e \<Rightarrow> Inl e | Inr pos_of_char_1 \<Rightarrow>
      case at s (pos + 0) of Inl e \<Rightarrow> Inl e | Inr c0 \<Rightarrow>
      case pos_of_char c0 of Inl e \<Rightarrow> Inl e | Inr pos_of_char_0 \<Rightarrow>
      (let byte1 = char_of (push_bit 2 pos_of_char_0 + drop_bit 4 (pos_of_char_1 AND 0x30)) in
       if pos + 2 < length s \<and> s ! (pos + 2) \<noteq> CHR ''='' \<and> s ! (pos + 2) \<noteq> CHR ''.'' then
         (case pos_of_char (s ! (pos + 2)) of Inl e \<Rightarrow> Inl e | Inr pos_of_char_2 \<Rightarrow>
          (let byte2 = char_of (push_bit 4 (pos_of_char_1 AND 0x0f) + drop_bit 2 (pos_of_char_2 AND 0x3c)) in
           if pos + 3 < length s \<and> s ! (pos + 3) \<noteq> CHR ''='' \<and> s ! (pos + 3) \<noteq> CHR ''.'' then
             (case pos_of_char (s ! (pos + 3)) of Inl e \<Rightarrow> Inl e | Inr pos_of_char_3 \<Rightarrow>
              Inr [byte1, byte2, char_of (push_bit 6 (pos_of_char_2 AND 0x03) + pos_of_char_3)])
           else Inr [byte1, byte2]))
       else Inr [byte1]))"

function decode_loop :: "string \<Rightarrow> nat \<Rightarrow> string \<Rightarrow> error + string" where
  "decode_loop s pos ret =
     (if pos < length s
      then (case decode_chunk s pos of
              Inl e \<Rightarrow> Inl e
            | Inr bytes \<Rightarrow> decode_loop s (pos + 4) (ret @ bytes))
      else Inr ret)"
  by pat_completeness auto
termination
  by (relation "measure (\<lambda>(s, pos, ret). length s - pos)") auto

declare decode_loop.simps [simp del]

function base64_decode :: "string \<Rightarrow> bool \<Rightarrow> error + string" where
  "base64_decode encoded_string remove_linebreaks =
     (if encoded_string = [] then Inr []
      else if remove_linebreaks
      then base64_decode (filter (\<lambda>c. c \<noteq> CHR 0x0A) encoded_string) False
      else decode_loop encoded_string 0 [])"
  by pat_completeness auto
termination
  by (relation "measure (\<lambda>(s, b). if b then 1 else 0)") auto

declare base64_decode.simps [simp del]

section \<open>The loops as functions of the remaining input\<close>

text \<open>
  What the encoder loop appends for the bytes from \<^verbatim>\<open>pos\<close> on, as a recursion over
  those bytes; \<open>encode_loop_eq\<close> below shows that the loop computes it whenever the
  32-bit \<^verbatim>\<open>pos\<close> does not wrap.
\<close>

fun encode_bytes :: "bool \<Rightarrow> string \<Rightarrow> string" where
  "encode_bytes url [] = []"
| "encode_bytes url [a] =
     (let base64_chars = (if url then encode_table_url else encode_table);
          trailing_char = (if url then CHR ''.'' else CHR ''='')
      in [base64_chars ! (drop_bit 2 ((of_char a :: nat) AND 0xfc)),
          base64_chars ! (push_bit 4 ((of_char a :: nat) AND 0x03)),
          trailing_char, trailing_char])"
| "encode_bytes url [a, b] =
     (let base64_chars = (if url then encode_table_url else encode_table);
          trailing_char = (if url then CHR ''.'' else CHR ''='')
      in [base64_chars ! (drop_bit 2 ((of_char a :: nat) AND 0xfc)),
          base64_chars ! (push_bit 4 ((of_char a :: nat) AND 0x03) + drop_bit 4 ((of_char b :: nat) AND 0xf0)),
          base64_chars ! (push_bit 2 ((of_char b :: nat) AND 0x0f)),
          trailing_char])"
| "encode_bytes url (a # b # c # rest) =
     (let base64_chars = (if url then encode_table_url else encode_table)
      in [base64_chars ! (drop_bit 2 ((of_char a :: nat) AND 0xfc)),
          base64_chars ! (push_bit 4 ((of_char a :: nat) AND 0x03) + drop_bit 4 ((of_char b :: nat) AND 0xf0)),
          base64_chars ! (push_bit 2 ((of_char b :: nat) AND 0x0f) + drop_bit 6 ((of_char c :: nat) AND 0xc0)),
          base64_chars ! ((of_char c :: nat) AND 0x3f)]
         @ encode_bytes url rest)"

section \<open>Bit arithmetic\<close>

lemma and_3: "(x::nat) AND 3 = x mod 4"
proof -
  have "x AND mask 2 = take_bit 2 x" by (simp add: take_bit_eq_mask)
  then show ?thesis by (simp add: take_bit_eq_mod mask_eq_exp_minus_1)
qed

lemma and_15: "(x::nat) AND 15 = x mod 16"
proof -
  have "x AND mask 4 = take_bit 4 x" by (simp add: take_bit_eq_mask)
  then show ?thesis by (simp add: take_bit_eq_mod mask_eq_exp_minus_1)
qed

lemma and_63: "(x::nat) AND 63 = x mod 64"
proof -
  have "x AND mask 6 = take_bit 6 x" by (simp add: take_bit_eq_mask)
  then show ?thesis by (simp add: take_bit_eq_mod mask_eq_exp_minus_1)
qed

lemma shr2_fc: "drop_bit 2 ((x::nat) AND 0xfc) = x div 4 mod 64"
  by (simp add: and_63) (simp add: drop_bit_eq_div)

lemma shr4_f0: "drop_bit 4 ((x::nat) AND 0xf0) = x div 16 mod 16"
  by (simp add: and_15) (simp add: drop_bit_eq_div)

lemma shr6_c0: "drop_bit 6 ((x::nat) AND 0xc0) = x div 64 mod 4"
  by (simp add: and_3) (simp add: drop_bit_eq_div)

lemma shr4_30: "drop_bit 4 ((x::nat) AND 0x30) = x div 16 mod 4"
  by (simp add: and_3) (simp add: drop_bit_eq_div)

lemma shr2_3c: "drop_bit 2 ((x::nat) AND 0x3c) = x div 4 mod 16"
  by (simp add: and_15) (simp add: drop_bit_eq_div)

lemmas bits = and_3 and_15 and_63 shr2_fc shr4_f0 shr6_c0 shr4_30 shr2_3c push_bit_eq_mult

lemma div_low: "b < n \<Longrightarrow> (a * n + b) div n = (a::nat)"
  by simp

lemma mod_low: "b < n \<Longrightarrow> (a * n + b) mod n = (b::nat)"
  by simp

text \<open>Three bytes are recovered from the four 6-bit values they are split into.\<close>

lemma sextets_byte1:
  assumes "x < 256"
  shows "x div 4 mod 64 * 4 + (x mod 4 * 16 + y div 16 mod 16) div 16 mod 4 = (x::nat)"
proof -
  have "(x mod 4 * 16 + y div 16 mod 16) div 16 = x mod 4" by (simp add: div_low)
  moreover have "x div 4 mod 64 = x div 4" using assms by simp
  ultimately show ?thesis by simp
qed

lemma sextets_byte2:
  assumes "y < 256"
  shows "(x mod 4 * 16 + y div 16 mod 16) mod 16 * 16 + (y mod 16 * 4 + z div 64 mod 4) div 4 mod 16 = (y::nat)"
proof -
  have "(x mod 4 * 16 + y div 16 mod 16) mod 16 = y div 16 mod 16" by (simp add: mod_low)
  moreover have "y div 16 mod 16 = y div 16" using assms by simp
  moreover have "(y mod 16 * 4 + z div 64 mod 4) div 4 = y mod 16" by (simp add: div_low)
  ultimately show ?thesis by simp
qed

lemma sextets_byte3:
  assumes "z < 256"
  shows "(y mod 16 * 4 + z div 64 mod 4) mod 4 * 64 + z mod 64 = (z::nat)"
proof -
  have "(y mod 16 * 4 + z div 64 mod 4) mod 4 = z div 64 mod 4" by (simp add: mod_low)
  moreover have "z div 64 mod 4 = z div 64" using assms by simp
  ultimately show ?thesis by simp
qed

lemma sextets_byte1_padded:
  assumes "x < 256"
  shows "x div 4 mod 64 * 4 + (x mod 4 * 16) div 16 mod 4 = (x::nat)"
  using sextets_byte1 [OF assms, of 0] by simp

lemma sextets_byte2_padded:
  assumes "y < 256"
  shows "(x mod 4 * 16 + y div 16 mod 16) mod 16 * 16 + (y mod 16 * 4) div 4 mod 16 = (y::nat)"
  using sextets_byte2 [OF assms, of x 0] by simp

section \<open>Facts about the tables\<close>

text \<open>
  The table that \<^verbatim>\<open>generate_decode_table\<close> computes from the standard alphabet:
  the placeholder \<open>0xff\<close> everywhere but at the codes of \<open>+\<close> (43), \<open>/\<close> (47), the
  digits (48 to 57), the capital letters (65 to 90) and the small letters (97 to 122).
\<close>

lemma decode_table_eq:
  "decode_table =
     replicate 43 255 @ [62] @ replicate 3 255 @ [63] @ [52..<62] @
     replicate 7 255 @ [0..<26] @ replicate 6 255 @ [26..<52]"
  by code_simp

lemma decode_table_nth:
  "n < 123 \<Longrightarrow>
   decode_table ! n =
     (if n < 43 then 255 else if n = 43 then 62 else if n < 47 then 255
      else if n = 47 then 63 else if n < 58 then n + 4 else if n < 65 then 255
      else if n < 91 then n - 65 else if n < 97 then 255 else n - 71)"
  by (auto simp: decode_table_eq nth_append nth_Cons' simp del: upt_rec_numeral)

lemma pos_of_char_eval:
  "pos_of_char c =
     (let n = of_char c :: nat in
      if 65 \<le> n \<and> n \<le> 90 then Inr (n - 65)
      else if 97 \<le> n \<and> n \<le> 122 then Inr (n - 71)
      else if 48 \<le> n \<and> n \<le> 57 then Inr (n + 4)
      else if n = 43 then Inr 62
      else if n = 47 then Inr 63
      else Inl InvalidInput)"
proof (cases "(of_char c :: nat) < 123")
  case False
  then show ?thesis by (simp add: pos_of_char_def max_encode_char_def Let_def)
next
  case True
  then show ?thesis
    by (auto simp: pos_of_char_def max_encode_char_def decode_placeholder_def Let_def
        decode_table_nth)
qed

lemma codes_encode_table:
  "map of_char encode_table = [65..<91] @ [97..<123] @ [48..<58] @ [43, 47 :: nat]"
  by (simp add: encode_table_def)

lemma length_encode_table: "length encode_table = 64" "length encode_table_url = 64"
  by (simp_all add: encode_table_def encode_table_url_def)

lemma of_char_encode_table_nth:
  assumes "i < 64"
  shows "(of_char (encode_table ! i) :: nat) =
     (if i < 26 then 65 + i else if i < 52 then 71 + i else if i < 62 then i - 4
      else if i = 62 then 43 else 47)"
proof -
  have "(of_char (encode_table ! i) :: nat) = map of_char encode_table ! i"
    using assms by (simp add: length_encode_table)
  also have "\<dots> = (if i < 26 then 65 + i else if i < 52 then 71 + i else if i < 62 then i - 4
      else if i = 62 then 43 else 47)"
  proof -
    have "i = 62 \<or> i = 63" if "\<not> i < 62" using that assms by linarith
    then show ?thesis
      unfolding codes_encode_table using assms
      by (auto simp: nth_append nth_Cons' simp del: upt_rec_numeral)
  qed
  finally show ?thesis .
qed

lemma pos_of_char_encode_table: "i < 64 \<Longrightarrow> pos_of_char (encode_table ! i) = Inr i"
  by (auto simp: pos_of_char_eval of_char_encode_table_nth Let_def)

lemma pos_of_char_Inr:
  assumes "pos_of_char c = Inr v"
  shows "v < 64 \<and> encode_table ! v = c"
proof -
  let ?n = "of_char c :: nat"
  from assms have v: "v < 64 \<and> ?n = (if v < 26 then 65 + v else if v < 52 then 71 + v
      else if v < 62 then v - 4 else if v = 62 then 43 else 47)"
    by (auto simp: pos_of_char_eval Let_def split: if_splits)
  moreover from v have "(of_char (encode_table ! v) :: nat) =
      (if v < 26 then 65 + v else if v < 52 then 71 + v
       else if v < 62 then v - 4 else if v = 62 then 43 else 47)"
    by (intro of_char_encode_table_nth) simp
  ultimately have "(of_char (encode_table ! v) :: nat) = of_char c" by (simp only:)
  then have "encode_table ! v = c" by (simp only: of_char_eq_iff)
  with v show ?thesis by simp
qed

lemma pos_of_char_not_in_table:
  assumes "c \<notin> set encode_table"
  shows "pos_of_char c = Inl InvalidInput"
proof (cases "pos_of_char c")
  case (Inl e)
  then show ?thesis by (simp add: pos_of_char_def Let_def split: if_splits)
next
  case (Inr v)
  then have "v < 64 \<and> encode_table ! v = c" by (rule pos_of_char_Inr)
  then have "c \<in> set encode_table"
    using nth_mem [of v encode_table] by (auto simp: length_encode_table)
  with assms show ?thesis by simp
qed

lemma valid_codes_set:
  "{j. j < max_encode_char \<and> decode_table ! j \<noteq> decode_placeholder} = of_char ` set encode_table"
proof -
  have "{j. j < max_encode_char \<and> decode_table ! j \<noteq> decode_placeholder} =
        {65..<91} \<union> {97..<123} \<union> {48..<58} \<union> {43, 47}"
    by (auto simp: max_encode_char_def decode_placeholder_def decode_table_nth split: if_splits)
  also have "\<dots> = set (map of_char encode_table)"
    by (simp only: codes_encode_table set_append set_upt list.set) auto
  finally show ?thesis by simp
qed

lemma generate_decode_table_encode_table:
  "generate_decode_table encode_table = Inr decode_table"
proof (cases "generate_decode_table encode_table")
  case (Inl e)
  then have "decode_table = []" by (simp add: decode_table_def)
  then show ?thesis using decode_table_eq by simp
next
  case (Inr t)
  then show ?thesis by (simp add: decode_table_def)
qed

lemma distinct_encode_table: "distinct encode_table"
  by (simp add: encode_table_def)

lemma not_in_encode_table:
  "CHR ''='' \<notin> set encode_table" "CHR ''.'' \<notin> set encode_table"
  "CHR 0x0A \<notin> set encode_table"
  by (simp_all add: encode_table_def)

lemma encode_table_nth_neq:
  assumes "i < 64"
  shows "encode_table ! i \<noteq> CHR ''=''" "encode_table ! i \<noteq> CHR ''.''"
    "encode_table ! i \<noteq> CHR 0x0A"
proof -
  have "encode_table ! i \<in> set encode_table"
    using assms by (simp add: length_encode_table)
  with not_in_encode_table
  show "encode_table ! i \<noteq> CHR ''=''" "encode_table ! i \<noteq> CHR ''.''"
    "encode_table ! i \<noteq> CHR 0x0A"
    by auto
qed

section \<open>The entries of the reverse lookup table\<close>

text \<open>
  Claim C8. The reverse lookup table, built once from the standard alphabet, maps exactly
  64 character codes to valid 6-bit values (each alphabet character to its index), and
  every other entry holds the placeholder \<open>0xff\<close>. The table is the constant
  \<open>decode_table\<close>, the result of \<open>generate_decode_table encode_table\<close>; no function of
  the codec takes or returns a table, so nothing changes it after its construction.
\<close>

theorem decode_table_entries:
  "generate_decode_table encode_table = Inr decode_table \<and>
   length decode_table = max_encode_char \<and>
   length encode_table = 64 \<and> distinct encode_table \<and>
   (\<forall>i<64. (of_char (encode_table ! i) :: nat) < max_encode_char \<and>
            decode_table ! of_char (encode_table ! i) = i) \<and>
   (\<forall>j<max_encode_char. j \<notin> of_char ` set encode_table \<longrightarrow>
            decode_table ! j = decode_placeholder) \<and>
   card {j. j < max_encode_char \<and> decode_table ! j \<noteq> decode_placeholder} = 64"
proof -
  have len: "length decode_table = max_encode_char"
    by (simp add: decode_table_eq max_encode_char_def)
  have valid: "(of_char (encode_table ! i) :: nat) < max_encode_char \<and>
               decode_table ! of_char (encode_table ! i) = i" if "i < 64" for i
    using pos_of_char_encode_table [OF that]
    by (simp add: pos_of_char_def Let_def split: if_splits)
  have others: "decode_table ! j = decode_placeholder"
    if "j < max_encode_char" "j \<notin> of_char ` set encode_table" for j
    using that valid_codes_set by blast
  have "card (of_char ` set encode_table :: nat set) = card (set encode_table)"
    by (intro card_image inj_onI) simp
  also have "\<dots> = 64"
    by (simp add: distinct_card distinct_encode_table length_encode_table)
  finally have "card {j. j < max_encode_char \<and> decode_table ! j \<noteq> decode_placeholder} = 64"
    by (simp only: valid_codes_set)
  with len valid others show ?thesis
    by (simp add: generate_decode_table_encode_table length_encode_table distinct_encode_table)
qed

theorem decode_table_entries_witness:
  "decode_table ! of_char (CHR ''+'') = 62 \<and> decode_table ! of_char (CHR ''-'') = decode_placeholder"
proof -
  from decode_table_entries
  have a: "\<forall>i<64. (of_char (encode_table ! i) :: nat) < max_encode_char \<and>
            decode_table ! of_char (encode_table ! i) = i"
    and b: "\<forall>j<max_encode_char. j \<notin> of_char ` set encode_table \<longrightarrow>
            decode_table ! j = decode_placeholder"
    by blast+
  have "(62::nat) < 64" by simp
  with a have "decode_table ! of_char (encode_table ! 62) = 62" by blast
  moreover have "encode_table ! 62 = CHR ''+''" by (simp add: encode_table_def)
  moreover have "(of_char (CHR ''-'') :: nat) < max_encode_char"
    by (simp add: max_encode_char_def)
  moreover have "(of_char (CHR ''-'') :: nat) \<notin> of_char ` set encode_table"
    by (simp add: encode_table_def)
  ultimately show ?thesis using b by simp
qed

section \<open>Running the codec on concrete inputs\<close>

lemmas run_encode = base64_encode_def encode_loop.simps encode_chunk_def encode_table_def
  encode_table_url_def bits Let_def

lemmas run_decode = base64_decode.simps decode_loop.simps decode_chunk_def at_def
  pos_of_char_eval bits Let_def char_of_def bit_0

text \<open>
  Claim C6. The codec matches the named test vectors: encoding \<open>Man\<close> with the standard
  alphabet gives \<open>TWFu\<close> and decoding \<open>TWFu\<close> gives \<open>Man\<close>; encoding \<open>M\<close> gives
  \<open>TQ==\<close>; encoding \<open>light work.\<close> gives \<open>bGlnaHQgd29yay4=\<close>.
\<close>

theorem known_vectors:
  "base64_encode ''Man'' False = Some ''TWFu'' \<and>
   base64_decode ''TWFu'' False = Inr ''Man'' \<and>
   base64_encode ''M'' False = Some ''TQ=='' \<and>
   base64_encode ''light work.'' False = Some ''bGlnaHQgd29yay4=''"
proof -
  have "base64_encode ''Man'' False = Some ''TWFu''"
    by (simp add: run_encode del: drop_bit_and)
  moreover have "base64_decode ''TWFu'' False = Inr ''Man''"
    by (simp add: run_decode del: drop_bit_and)
  moreover have "base64_encode ''M'' False = Some ''TQ==''"
    by (simp add: run_encode del: drop_bit_and)
  moreover have "base64_encode ''light work.'' False = Some ''bGlnaHQgd29yay4=''"
    by (simp add: run_encode del: drop_bit_and)
  ultimately show ?thesis by (intro conjI)
qed

section \<open>The encoder loop and its 32-bit position\<close>

lemma unat_pos_bound: "unat (pos :: 32 word) < 2 ^ 32"
proof -
  have "unat pos < 2 ^ LENGTH(32)" by (rule unsigned_less)
  then show ?thesis by simp
qed

text \<open>
  The loop leaves only when \<^verbatim>\<open>pos < in_len\<close> is false, and a 32-bit \<^verbatim>\<open>pos\<close> is
  below \<open>2 ^ 32\<close>: on an input of \<open>2 ^ 32\<close> bytes or more the loop never exits.
\<close>

lemma encode_loop_Some_bound:
  assumes "encode_loop s url pos ret = Some y"
  shows "length s < 2 ^ 32"
proof (rule encode_loop.raw_induct [where P = "\<lambda>s _ _ _ _. length s < 2 ^ 32", OF _ assms])
  fix f :: "string \<Rightarrow> bool \<Rightarrow> 32 word \<Rightarrow> string \<Rightarrow> string option" and s url pos ret y
  assume IH: "\<And>s url pos ret y. f s url pos ret = Some y \<Longrightarrow> length s < 2 ^ 32"
    and eq: "(if unat pos < length s then f s url (pos + 3) (ret @ encode_chunk s url pos) else Some ret) = Some y"
  show "length s < 2 ^ 32"
  proof (cases "unat pos < length s")
    case True
    with eq have "f s url (pos + 3) (ret @ encode_chunk s url pos) = Some y" by simp
    then show ?thesis by (rule IH)
  next
    case False
    with unat_pos_bound [of pos] show ?thesis by simp
  qed
qed

lemma base64_encode_diverges: "2 ^ 32 \<le> length s \<Longrightarrow> base64_encode s url = None"
  using encode_loop_Some_bound [of s url 0 "[]"]
  by (cases "base64_encode s url") (auto simp: base64_encode_def)

lemma unat_add3: "unat (pos :: 32 word) + 3 < 2 ^ 32 \<Longrightarrow> unat (pos + 3) = unat pos + 3"
  using unat_add_lem [of pos 3] by simp

lemma unat_add2: "unat (pos :: 32 word) + 2 < 2 ^ 32 \<Longrightarrow> unat (pos + 2) = unat pos + 2"
  using unat_add_lem [of pos 2] by simp

lemma unat_add1: "unat (pos :: 32 word) + 1 < 2 ^ 32 \<Longrightarrow> unat (pos + 1) = unat pos + 1"
  using unat_add_lem [of pos 1] by simp

lemma encode_bytes_chunk:
  assumes "unat pos < length s" and "unat pos + 2 < 2 ^ 32"
  shows "encode_bytes url (drop (unat pos) s) =
         encode_chunk s url pos @ encode_bytes url (drop (unat pos + 3) s)"
proof -
  let ?p = "unat pos"
  have u1: "unat (pos + 1) = ?p + 1" using assms(2) by (simp add: unat_add1)
  have u2: "unat (pos + 2) = ?p + 2" using assms(2) by (simp add: unat_add2)
  have d0: "drop ?p s = s ! ?p # drop (?p + 1) s"
    using assms(1) by (simp add: Cons_nth_drop_Suc)
  show ?thesis
  proof (cases "?p + 1 < length s")
    case False
    then have "drop (?p + 1) s = []" "drop (?p + 3) s = []" by simp_all
    with False d0 u1 show ?thesis by (simp add: encode_chunk_def Let_def)
  next
    case True
    then have d1: "drop (?p + 1) s = s ! (?p + 1) # drop (?p + 2) s"
      using Cons_nth_drop_Suc [of "?p + 1" s] by simp
    show ?thesis
    proof (cases "?p + 2 < length s")
      case False
      then have "drop (?p + 2) s = []" "drop (?p + 3) s = []" by simp_all
      with False True d0 d1 u1 u2 show ?thesis by (simp add: encode_chunk_def Let_def)
    next
      case t2: True
      then have d2: "drop (?p + 2) s = s ! (?p + 2) # drop (?p + 3) s"
        using Cons_nth_drop_Suc [of "?p + 2" s] by (simp add: numeral_3_eq_3 numeral_2_eq_2)
      with t2 True d0 d1 u1 u2 show ?thesis by (simp add: encode_chunk_def Let_def)
    qed
  qed
qed

text \<open>
  On an input shorter than \<open>2 ^ 32\<close> bytes \<^verbatim>\<open>pos\<close> runs through the multiples of 3
  without wrapping, and the loop returns.
\<close>

lemma encode_loop_eq:
  assumes "length s < 2 ^ 32" and "3 dvd unat pos"
  shows "encode_loop s url pos ret = Some (ret @ encode_bytes url (drop (unat pos) s))"
  using assms(2)
proof (induction "length s - unat pos" arbitrary: pos ret rule: less_induct)
  case less
  show ?case
  proof (cases "unat pos < length s")
    case False
    then show ?thesis by (subst encode_loop.simps) simp
  next
    case True
    have m: "unat pos mod 3 = 0" using less.prems by presburger
    have "unat pos \<noteq> 4294967293" "unat pos \<noteq> 4294967294" using m by auto
    with True assms(1) have b: "unat pos + 3 < 2 ^ 32" by simp
    then have u3: "unat (pos + 3) = unat pos + 3" by (rule unat_add3)
    have "encode_loop s url pos ret = encode_loop s url (pos + 3) (ret @ encode_chunk s url pos)"
      using True by (subst encode_loop.simps) simp
    also have "\<dots> = Some ((ret @ encode_chunk s url pos) @ encode_bytes url (drop (unat (pos + 3)) s))"
      using True less.prems by (intro less.hyps) (simp_all add: u3)
    also have "\<dots> = Some (ret @ encode_bytes url (drop (unat pos) s))"
      using encode_bytes_chunk [of pos s url] True b by (simp add: u3)
    finally show ?thesis .
  qed
qed

lemma base64_encode_eq:
  "length s < 2 ^ 32 \<Longrightarrow> base64_encode s url = Some (encode_bytes url s)"
  using encode_loop_eq [of s 0 url "[]"] by (simp add: base64_encode_def)

section \<open>Decoding what the encoder wrote\<close>

lemma decode_chunk_full:
  assumes "pos + 3 < length s"
    and "s ! pos = encode_table ! i0" "s ! (pos + 1) = encode_table ! i1"
    and "s ! (pos + 2) = encode_table ! i2" "s ! (pos + 3) = encode_table ! i3"
    and "i0 < 64" "i1 < 64" "i2 < 64" "i3 < 64"
  shows "decode_chunk s pos =
    Inr [char_of (i0 * 4 + i1 div 16 mod 4),
         char_of (i1 mod 16 * 16 + i2 div 4 mod 16),
         char_of (i2 mod 4 * 64 + i3)]"
  using assms
  by (simp add: decode_chunk_def at_def pos_of_char_encode_table encode_table_nth_neq bits
      del: drop_bit_and)

lemma decode_chunk_pad1:
  assumes "pos + 3 < length s"
    and "s ! pos = encode_table ! i0" "s ! (pos + 1) = encode_table ! i1"
    and "s ! (pos + 2) = encode_table ! i2"
    and "s ! (pos + 3) = CHR ''='' \<or> s ! (pos + 3) = CHR ''.''"
    and "i0 < 64" "i1 < 64" "i2 < 64"
  shows "decode_chunk s pos =
    Inr [char_of (i0 * 4 + i1 div 16 mod 4),
         char_of (i1 mod 16 * 16 + i2 div 4 mod 16)]"
  using assms
  by (auto simp add: decode_chunk_def at_def pos_of_char_encode_table encode_table_nth_neq bits
      Let_def simp del: drop_bit_and)

lemma decode_chunk_pad2:
  assumes "pos + 2 < length s"
    and "s ! pos = encode_table ! i0" "s ! (pos + 1) = encode_table ! i1"
    and "s ! (pos + 2) = CHR ''='' \<or> s ! (pos + 2) = CHR ''.''"
    and "i0 < 64" "i1 < 64"
  shows "decode_chunk s pos = Inr [char_of (i0 * 4 + i1 div 16 mod 4)]"
  using assms
  by (auto simp add: decode_chunk_def at_def pos_of_char_encode_table encode_table_nth_neq bits
      Let_def simp del: drop_bit_and)

lemma of_char_lt: "(of_char c :: nat) < 256"
  by simp

lemma decode_loop_last_chunk:
  assumes "decode_chunk s pos = Inr bytes" and "pos < length s" and "length s \<le> pos + 4"
  shows "decode_loop s pos ret = Inr (ret @ bytes)"
proof -
  have "decode_loop s pos ret = decode_loop s (pos + 4) (ret @ bytes)"
    using assms(1,2) by (subst decode_loop.simps) simp
  also have "\<dots> = Inr (ret @ bytes)"
    using assms(3) by (subst decode_loop.simps) simp
  finally show ?thesis .
qed

lemma decode_loop_encode_bytes:
  "\<not> url \<Longrightarrow> decode_loop (pre @ encode_bytes url B) (length pre) ret = Inr (ret @ B)"
proof (induction url B arbitrary: pre ret rule: encode_bytes.induct)
  case (1 url)
  then show ?case by (simp add: decode_loop.simps)
next
  case (2 url a)
  let ?x = "of_char a :: nat"
  define s where "s = pre @ encode_bytes url [a]"
  have len: "length s = length pre + 4" by (simp add: s_def Let_def)
  have "decode_chunk s (length pre) = Inr [char_of (?x div 4 mod 64 * 4 + (?x mod 4 * 16) div 16 mod 4)]"
    using 2 by (intro decode_chunk_pad2) (simp_all add: s_def nth_append bits Let_def del: drop_bit_and)
  then have "decode_chunk s (length pre) = Inr [a]"
    by (simp only: sextets_byte1_padded [OF of_char_lt] char_of_char)
  then have "decode_loop s (length pre) ret = Inr (ret @ [a])"
    by (rule decode_loop_last_chunk) (simp_all add: len)
  then show ?case by (simp only: s_def)
next
  case (3 url a b)
  let ?x = "of_char a :: nat" and ?y = "of_char b :: nat"
  define s where "s = pre @ encode_bytes url [a, b]"
  have len: "length s = length pre + 4" by (simp add: s_def Let_def)
  have "decode_chunk s (length pre) =
     Inr [char_of (?x div 4 mod 64 * 4 + (?x mod 4 * 16 + ?y div 16 mod 16) div 16 mod 4),
          char_of ((?x mod 4 * 16 + ?y div 16 mod 16) mod 16 * 16 + (?y mod 16 * 4) div 4 mod 16)]"
    using 3 by (intro decode_chunk_pad1) (simp_all add: s_def nth_append bits Let_def del: drop_bit_and)
  then have "decode_chunk s (length pre) = Inr [a, b]"
    by (simp only: sextets_byte1 [OF of_char_lt] sextets_byte2_padded [OF of_char_lt] char_of_char)
  then have "decode_loop s (length pre) ret = Inr (ret @ [a, b])"
    by (rule decode_loop_last_chunk) (simp_all add: len)
  then show ?case by (simp only: s_def)
next
  case (4 url a b c rest)
  let ?x = "of_char a :: nat" and ?y = "of_char b :: nat" and ?z = "of_char c :: nat"
  let ?i0 = "?x div 4 mod 64" and ?i1 = "?x mod 4 * 16 + ?y div 16 mod 16"
    and ?i2 = "?y mod 16 * 4 + ?z div 64 mod 4" and ?i3 = "?z mod 64"
  define q where "q = [encode_table ! ?i0, encode_table ! ?i1, encode_table ! ?i2, encode_table ! ?i3]"
  define s where "s = pre @ encode_bytes url (a # b # c # rest)"
  have s: "s = (pre @ q) @ encode_bytes url rest"
    using 4(2) by (simp add: s_def q_def bits Let_def del: drop_bit_and)
  have "decode_chunk s (length pre) =
     Inr [char_of (?i0 * 4 + ?i1 div 16 mod 4),
          char_of (?i1 mod 16 * 16 + ?i2 div 4 mod 16),
          char_of (?i2 mod 4 * 64 + ?i3)]"
    unfolding s by (intro decode_chunk_full) (simp_all add: q_def nth_append)
  then have ch: "decode_chunk s (length pre) = Inr [a, b, c]"
    by (simp only: sextets_byte1 [OF of_char_lt] sextets_byte2 [OF of_char_lt]
        sextets_byte3 [OF of_char_lt] char_of_char)
  have lq: "length (pre @ q) = length pre + 4" by (simp add: q_def)
  have "length pre < length s" by (simp add: s q_def)
  then have "decode_loop s (length pre) ret = decode_loop s (length pre + 4) (ret @ [a, b, c])"
    using ch by (subst decode_loop.simps) simp
  also have "\<dots> = decode_loop ((pre @ q) @ encode_bytes url rest) (length (pre @ q)) (ret @ [a, b, c])"
    by (simp only: s lq)
  also have "\<dots> = Inr ((ret @ [a, b, c]) @ rest)"
    using 4(2) by (intro 4(1)) simp_all
  finally show ?case by (simp add: s_def)
qed

section \<open>Inputs shorter than \<open>2 ^ 32\<close> bytes\<close>

text \<open>
  Below \<open>2 ^ 32\<close> bytes the 32-bit position of the encoder does not wrap, and the
  length law, the padding of the last chunk and the round trips hold.
\<close>

lemma length_encode_bytes: "length (encode_bytes url B) = (length B + 2) div 3 * 4"
proof (induction url B rule: encode_bytes.induct)
  case (4 url a b c rest)
  have "(length (a # b # c # rest) + 2) div 3 = (length rest + 2) div 3 + 1" by simp
  with 4 show ?case by (simp add: Let_def)
qed (simp_all add: Let_def)

lemma encode_bytes_Nil_iff: "encode_bytes url B = [] \<longleftrightarrow> B = []"
  using length_encode_bytes [of url B] by (cases B) auto

lemma encode_bytes_append:
  "length xs mod 3 = 0 \<Longrightarrow> encode_bytes url (xs @ ys) = encode_bytes url xs @ encode_bytes url ys"
proof (induction url xs rule: encode_bytes.induct)
  case (4 url a b c rest)
  then show ?case by (simp add: Let_def)
qed simp_all

lemma sextet_bounds:
  "x div 4 mod 64 < (64::nat)"
  "x mod 4 * 16 < (64::nat)"
  "x mod 4 * 16 + y div 16 mod 16 < (64::nat)"
  "y mod 16 * 4 < (64::nat)"
  "y mod 16 * 4 + z div 64 mod 4 < (64::nat)"
  "z mod 64 < (64::nat)"
proof -
  have "x mod 4 < 4" "y div 16 mod 16 < 16" "y mod 16 < 16" "z div 64 mod 4 < 4" by simp_all
  then show "x mod 4 * 16 < (64::nat)" "x mod 4 * 16 + y div 16 mod 16 < (64::nat)"
    "y mod 16 * 4 < (64::nat)" "y mod 16 * 4 + z div 64 mod 4 < (64::nat)" by linarith+
qed simp_all

lemma set_encode_bytes_standard:
  "set (encode_bytes False B) \<subseteq> set encode_table \<union> {CHR ''=''}"
proof (induction "False" B rule: encode_bytes.induct)
  case (4 a b c rest)
  then show ?case
    by (simp add: bits sextet_bounds length_encode_table del: drop_bit_and)
qed (simp_all add: bits sextet_bounds length_encode_table Let_def del: drop_bit_and)

lemma set_encode_bytes_url:
  "set (encode_bytes True B) \<subseteq> set encode_table_url \<union> {CHR ''.''}"
proof (induction "True" B rule: encode_bytes.induct)
  case (4 a b c rest)
  then show ?case
    by (simp add: bits sextet_bounds length_encode_table del: drop_bit_and)
qed (simp_all add: bits sextet_bounds length_encode_table Let_def del: drop_bit_and)

lemma round_trip_encode_bytes: "base64_decode (encode_bytes False B) False = Inr B"
proof (cases "B = []")
  case True
  then show ?thesis by (simp add: base64_decode.simps)
next
  case False
  then have "encode_bytes False B \<noteq> []" by (simp add: encode_bytes_Nil_iff)
  moreover have "decode_loop (encode_bytes False B) 0 [] = Inr B"
    using decode_loop_encode_bytes [of False "[]" B "[]"] by simp
  ultimately show ?thesis by (simp add: base64_decode.simps)
qed

lemma round_trip_standard_below_4GiB:
  assumes "length B < 2 ^ 32"
  shows "\<exists>e. base64_encode B False = Some e \<and> base64_decode e False = Inr B"
  using assms by (simp add: base64_encode_eq round_trip_encode_bytes)

lemma base64_decode_strip:
  "base64_decode s True = base64_decode (filter (\<lambda>c. c \<noteq> CHR 0x0A) s) False"
  by (cases "s = []") (simp_all add: base64_decode.simps)

lemma insert_loop_filter:
  assumes "0 < d"
  shows "\<exists>r. insert_loop str pos d = Some r \<and>
             filter (\<lambda>c. c \<noteq> CHR 0x0A) r = filter (\<lambda>c. c \<noteq> CHR 0x0A) str"
proof (induction "length str - pos" arbitrary: str pos rule: less_induct)
  case less
  show ?case
  proof (cases "pos < length str")
    case False
    then show ?thesis by (subst insert_loop.simps) simp
  next
    case True
    let ?str = "take pos str @ [CHR 0x0A] @ drop pos str"
    have "length ?str - (pos + (d + 1)) < length str - pos"
      using True assms by simp
    from less [OF this] obtain r where
      r: "insert_loop ?str (pos + (d + 1)) d = Some r"
         "filter (\<lambda>c. c \<noteq> CHR 0x0A) r = filter (\<lambda>c. c \<noteq> CHR 0x0A) ?str"
      by blast
    have "filter (\<lambda>c. c \<noteq> CHR 0x0A) ?str =
          filter (\<lambda>c. c \<noteq> CHR 0x0A) (take pos str) @ filter (\<lambda>c. c \<noteq> CHR 0x0A) (drop pos str)"
      by simp
    also have "\<dots> = filter (\<lambda>c. c \<noteq> CHR 0x0A) (take pos str @ drop pos str)"
      by (simp only: filter_append)
    also have "\<dots> = filter (\<lambda>c. c \<noteq> CHR 0x0A) str"
      by (simp only: append_take_drop_id)
    finally have "filter (\<lambda>c. c \<noteq> CHR 0x0A) ?str = filter (\<lambda>c. c \<noteq> CHR 0x0A) str" .
    with r True show ?thesis by (subst insert_loop.simps) simp
  qed
qed

lemma insert_linebreaks_filter:
  assumes "0 < d"
  shows "\<exists>r. insert_linebreaks str d = Some r \<and>
             filter (\<lambda>c. c \<noteq> CHR 0x0A) r = filter (\<lambda>c. c \<noteq> CHR 0x0A) str"
proof (cases "str = []")
  case True
  then show ?thesis by (simp add: insert_linebreaks_def)
next
  case False
  with insert_loop_filter [OF assms, of str d] show ?thesis
    by (simp add: insert_linebreaks_def)
qed

lemma round_trip_mime_below_4GiB:
  assumes "length B < 2 ^ 32"
  shows "\<exists>m. base64_encode_mime B = Some m \<and> base64_decode m True = Inr B"
proof -
  let ?e = "encode_bytes False B"
  have e: "base64_encode B False = Some ?e" using assms by (rule base64_encode_eq)
  have "CHR 0x0A \<notin> set ?e"
    using set_encode_bytes_standard [of B] not_in_encode_table(3) by auto
  then have nonl: "filter (\<lambda>c. c \<noteq> CHR 0x0A) ?e = ?e"
    by (auto simp: filter_id_conv)
  obtain m where m: "insert_linebreaks ?e 76 = Some m"
     "filter (\<lambda>c. c \<noteq> CHR 0x0A) m = filter (\<lambda>c. c \<noteq> CHR 0x0A) ?e"
    using insert_linebreaks_filter [of 76 ?e] by auto
  have "base64_decode m True = Inr B"
    by (simp only: base64_decode_strip m(2) nonl round_trip_encode_bytes)
  with e m(1) show ?thesis by (simp add: base64_encode_mime_def)
qed

lemma set_encode_bytes_data:
  "length xs mod 3 = 0 \<Longrightarrow>
   set (encode_bytes url xs) \<subseteq> set (if url then encode_table_url else encode_table)"
proof (induction url xs rule: encode_bytes.induct)
  case (4 url a b c rest)
  then show ?case
    by (cases url) (simp_all add: bits sextet_bounds length_encode_table del: drop_bit_and)
qed simp_all

lemma padding_below_4GiB:
  fixes url :: bool
  assumes "length B < 2 ^ 32"
  defines "base64_chars \<equiv> (if url then encode_table_url else encode_table)"
    and "trailing_char \<equiv> (if url then CHR ''.'' else CHR ''='')"
  shows "B = xs @ [a] \<Longrightarrow> length xs mod 3 = 0 \<Longrightarrow>
           base64_encode B url =
             Some (encode_bytes url xs @
               [base64_chars ! (drop_bit 2 ((of_char a :: nat) AND 0xfc)),
                base64_chars ! (push_bit 4 ((of_char a :: nat) AND 0x03)),
                trailing_char, trailing_char])"
    and "B = xs @ [a, b] \<Longrightarrow> length xs mod 3 = 0 \<Longrightarrow>
           base64_encode B url =
             Some (encode_bytes url xs @
               [base64_chars ! (drop_bit 2 ((of_char a :: nat) AND 0xfc)),
                base64_chars ! (push_bit 4 ((of_char a :: nat) AND 0x03) + drop_bit 4 ((of_char b :: nat) AND 0xf0)),
                base64_chars ! (push_bit 2 ((of_char b :: nat) AND 0x0f)),
                trailing_char])"
    and "trailing_char \<notin> set base64_chars"
  using assms(1)
  by (simp_all add: base64_encode_eq encode_bytes_append base64_chars_def trailing_char_def
      Let_def encode_table_def encode_table_url_def del: drop_bit_and)

lemma length_below_4GiB:
  "length B < 2 ^ 32 \<Longrightarrow>
   \<exists>e. base64_encode B url = Some e \<and> length e = (length B + 2) div 3 * 4"
  by (simp add: base64_encode_eq length_encode_bytes)

section \<open>Inputs of \<open>2 ^ 32\<close> bytes or more\<close>

text \<open>
  The position of the encoder loop is an \<^verbatim>\<open>unsigned int\<close>, the length it is compared
  with a \<^verbatim>\<open>size_t\<close> (the position of the decoder loop is a \<^verbatim>\<open>size_t\<close>). On an
  input of \<open>2 ^ 32\<close> bytes or more \<^verbatim>\<open>pos < in_len\<close> is always true, the position wraps
  around and the loop appends to \<^verbatim>\<open>ret\<close> without end, until the memory is used
  up (\<open>base64_encode_diverges\<close>), so the encoder returns no string. The next four theorems evaluate the code on the input of
  \<open>2 ^ 32\<close> bytes \<open>A\<close>; the lemmas of the previous section are the same properties for
  the inputs below that length.

  Claim C1. For every byte sequence \<open>B\<close>, decoding the standard-alphabet encoding with
  no line-break stripping returns \<open>B\<close>. The code does not do so for \<open>2 ^ 32\<close> bytes
  \<open>A\<close>: no encoding is returned that could be decoded
  (for shorter inputs see \<open>round_trip_standard_below_4GiB\<close>).
\<close>

theorem round_trip_standard_fails:
  "\<not> (\<exists>e. base64_encode (replicate (2 ^ 32) (CHR ''A'')) False = Some e \<and>
            base64_decode e False = Inr (replicate (2 ^ 32) (CHR ''A'')))"
  by (simp add: base64_encode_diverges)

text \<open>
  Claim C3. For every byte sequence \<open>B\<close>, MIME-wrapped encoding followed by decoding with
  the line-break-stripping flag set returns \<open>B\<close>. The code returns no MIME encoding for
  \<open>2 ^ 32\<close> bytes \<open>A\<close> (for shorter inputs see \<open>round_trip_mime_below_4GiB\<close>).
\<close>

theorem round_trip_mime_fails:
  "base64_encode_mime (replicate (2 ^ 32) (CHR ''A'')) = None"
  by (simp add: base64_encode_mime_def base64_encode_diverges)

lemma encode_empty: "base64_encode [] url = Some []"
  by (simp add: base64_encode_def encode_loop.simps)

text \<open>
  Claim C4. For every byte sequence of length \<open>N\<close> and both values of the flag, the
  encoding has length \<open>ceil(N/3) * 4\<close>. For \<open>2 ^ 32\<close> bytes \<open>A\<close> the code returns no
  encoding of that length, with either flag (for shorter inputs see \<open>length_below_4GiB\<close>;
  the encoding of the empty input is empty, \<open>encode_empty\<close>).
\<close>

theorem length_law_fails:
  "\<not> (\<exists>e. base64_encode (replicate (2 ^ 32) (CHR ''A'')) False = Some e \<and>
            length e = (2 ^ 32 + 2) div 3 * 4) \<and>
   \<not> (\<exists>e. base64_encode (replicate (2 ^ 32) (CHR ''A'')) True = Some e \<and>
            length e = (2 ^ 32 + 2) div 3 * 4)"
  by (simp add: base64_encode_diverges)

text \<open>
  Claim C7. An input whose length is 1 modulo 3 is encoded with two data characters and
  two padding characters for the last chunk, one whose length is 2 modulo 3 with three
  data characters and one padding character; the padding character is \<open>=\<close> or \<open>.\<close>. The
  length \<open>2 ^ 32\<close> is 1 modulo 3 and \<open>2 ^ 32 + 1\<close> is 2 modulo 3, and for inputs of
  these lengths the code returns nothing (for shorter inputs see \<open>padding_below_4GiB\<close>).
\<close>

theorem padding_fails:
  "(2 ^ 32 :: nat) mod 3 = 1 \<and>
   base64_encode (replicate (2 ^ 32) (CHR ''A'')) False = None \<and>
   (2 ^ 32 + 1 :: nat) mod 3 = 2 \<and>
   base64_encode (replicate (2 ^ 32 + 1) (CHR ''A'')) False = None"
  by (simp add: base64_encode_diverges)

section \<open>The URL-safe alphabet\<close>

text \<open>
  Claim C2 says that decoding the URL-safe encoding returns the input. The code does not
  do that for the byte \<open>0xFB\<close>: its URL-safe encoding is \<open>-w..\<close>, and the decoder, whose
  table is built from the standard alphabet only, rejects the character \<open>-\<close>.
\<close>

theorem url_safe_round_trip_fails:
  "base64_encode [CHR 0xFB] True = Some ''-w..'' \<and>
   base64_decode ''-w..'' False = Inl InvalidInput"
proof -
  have "base64_encode [CHR 0xFB] True = Some ''-w..''"
    by (simp add: run_encode del: drop_bit_and)
  moreover have "base64_decode ''-w..'' False = Inl InvalidInput"
    by (simp add: run_decode del: drop_bit_and)
  ultimately show ?thesis by (intro conjI)
qed

section \<open>The decoder, chunk by chunk\<close>

lemma pos_of_char_error: "pos_of_char c = Inl e \<Longrightarrow> e = InvalidInput"
  by (simp add: pos_of_char_def Let_def split: if_splits)

lemma pos_of_char_not_OutOfRange: "pos_of_char c \<noteq> Inl OutOfRange"
  using pos_of_char_error [of c OutOfRange] by auto

lemma case_sum_eq_Inl:
  "(case x of Inl e \<Rightarrow> Inl e | Inr v \<Rightarrow> f v) = Inl err \<longleftrightarrow>
   x = Inl err \<or> (\<exists>v. x = Inr v \<and> f v = Inl err)"
  by (cases x) auto

lemma decode_chunk_OutOfRange:
  "decode_chunk s pos = Inl OutOfRange \<longleftrightarrow> length s \<le> pos + 1"
proof (cases "pos + 1 < length s")
  case False
  then show ?thesis by (simp add: decode_chunk_def at_def)
next
  case True
  then have "decode_chunk s pos \<noteq> Inl OutOfRange"
    by (simp add: decode_chunk_def at_def Let_def case_sum_eq_Inl pos_of_char_not_OutOfRange)
  with True show ?thesis by simp
qed

lemma decode_chunk_cong:
  assumes "length t \<le> pos + 4 \<Longrightarrow> length s = length t"
    and "pos + 4 \<le> length t \<Longrightarrow> pos + 4 \<le> length s"
    and "\<And>k. k < 4 \<Longrightarrow> pos + k < length t \<Longrightarrow> s ! (pos + k) = t ! (pos + k)"
  shows "decode_chunk s pos = decode_chunk t pos"
proof -
  have l: "pos + k < length s \<longleftrightarrow> pos + k < length t" if "k < 4" for k
    using assms(1,2) that by (cases "length t \<le> pos + 4") auto
  have a: "at s (pos + k) = at t (pos + k)" if "k < 4" for k
    using l [OF that] assms(3) [OF that] by (auto simp: at_def)
  have c2: "(pos + 2 < length s \<and> s ! (pos + 2) \<noteq> CHR ''='' \<and> s ! (pos + 2) \<noteq> CHR ''.'') \<longleftrightarrow>
            (pos + 2 < length t \<and> t ! (pos + 2) \<noteq> CHR ''='' \<and> t ! (pos + 2) \<noteq> CHR ''.'')"
    using l [of 2] assms(3) [of 2] by auto
  have c3: "(pos + 3 < length s \<and> s ! (pos + 3) \<noteq> CHR ''='' \<and> s ! (pos + 3) \<noteq> CHR ''.'') \<longleftrightarrow>
            (pos + 3 < length t \<and> t ! (pos + 3) \<noteq> CHR ''='' \<and> t ! (pos + 3) \<noteq> CHR ''.'')"
    using l [of 3] assms(3) [of 3] by auto
  have p2: "pos + 2 < length t \<Longrightarrow> pos_of_char (s ! (pos + 2)) = pos_of_char (t ! (pos + 2))"
    using assms(3) [of 2] by simp
  have p3: "pos + 3 < length t \<Longrightarrow> pos_of_char (s ! (pos + 3)) = pos_of_char (t ! (pos + 3))"
    using assms(3) [of 3] by simp
  have a1: "at s (pos + 1) = at t (pos + 1)" and a0: "at s (pos + 0) = at t (pos + 0)"
    using a [of 1] a [of 0] by simp_all
  show ?thesis
    unfolding decode_chunk_def a1 a0 c2 c3
    by (simp add: p2 [simplified] p3 cong: if_cong sum.case_cong)
qed

lemma decode_chunk_butlast:
  "pos + 4 < length s \<Longrightarrow> decode_chunk (butlast s) pos = decode_chunk s pos"
  by (rule decode_chunk_cong) (simp_all add: nth_butlast)

lemma decode_chunk_update:
  "j < pos \<or> pos + 4 \<le> j \<Longrightarrow> decode_chunk (s[j := c]) pos = decode_chunk s pos"
  by (rule decode_chunk_cong) auto

lemma decode_chunk_padded:
  assumes "pos + 2 < length s" and "s ! (pos + 2) = CHR ''='' \<or> s ! (pos + 2) = CHR ''.''"
  shows "decode_chunk s pos =
    (case pos_of_char (s ! (pos + 1)) of Inl e \<Rightarrow> Inl e | Inr pos_of_char_1 \<Rightarrow>
     case pos_of_char (s ! pos) of Inl e \<Rightarrow> Inl e | Inr pos_of_char_0 \<Rightarrow>
       Inr [char_of (push_bit 2 pos_of_char_0 + drop_bit 4 (pos_of_char_1 AND 0x30))])"
  using assms(2,1)
  by (elim disjE) (simp_all add: decode_chunk_def at_def Let_def cong: sum.case_cong)

lemma decode_chunk_update_fourth:
  assumes "pos + 2 < length s" and "s ! (pos + 2) = CHR ''='' \<or> s ! (pos + 2) = CHR ''.''"
  shows "decode_chunk (s[pos + 3 := c]) pos = decode_chunk s pos"
proof -
  let ?t = "s[pos + 3 := c]"
  have t: "?t ! (pos + 2) = s ! (pos + 2)" "?t ! (pos + 1) = s ! (pos + 1)" "?t ! pos = s ! pos"
    by simp_all
  have "decode_chunk ?t pos =
    (case pos_of_char (?t ! (pos + 1)) of Inl e \<Rightarrow> Inl e | Inr pos_of_char_1 \<Rightarrow>
     case pos_of_char (?t ! pos) of Inl e \<Rightarrow> Inl e | Inr pos_of_char_0 \<Rightarrow>
       Inr [char_of (push_bit 2 pos_of_char_0 + drop_bit 4 (pos_of_char_1 AND 0x30))])"
    using assms by (intro decode_chunk_padded) (simp_all only: t length_list_update)
  also have "\<dots> = decode_chunk s pos"
    unfolding t using assms by (rule decode_chunk_padded [symmetric])
  finally show ?thesis .
qed

lemma decode_loop_update_fourth:
  assumes "q mod 4 = 0" and "q + 2 < length s"
    and "s ! (q + 2) = CHR ''='' \<or> s ! (q + 2) = CHR ''.''"
  shows "pos mod 4 = 0 \<Longrightarrow> decode_loop (s[q + 3 := c]) pos ret = decode_loop s pos ret"
proof (induction "length s - pos" arbitrary: pos ret rule: less_induct)
  case less
  let ?t = "s[q + 3 := c]"
  show ?case
  proof (cases "pos < length s")
    case False
    then show ?thesis by (simp add: decode_loop.simps)
  next
    case True
    have ch: "decode_chunk ?t pos = decode_chunk s pos"
    proof (cases "pos = q")
      case True
      with assms show ?thesis by (simp add: decode_chunk_update_fourth)
    next
      case False
      with assms(1) less.prems have "q + 3 < pos \<or> pos + 4 \<le> q + 3" by presburger
      then show ?thesis by (rule decode_chunk_update)
    qed
    show ?thesis
    proof (cases "decode_chunk s pos")
      case (Inl e)
      with ch True show ?thesis by (simp add: decode_loop.simps)
    next
      case (Inr bytes)
      have "decode_loop ?t (pos + 4) (ret @ bytes) = decode_loop s (pos + 4) (ret @ bytes)"
        using True less.prems by (intro less.hyps) auto
      with Inr ch True show ?thesis
        by (simp add: decode_loop.simps [of s pos] decode_loop.simps [of ?t pos])
    qed
  qed
qed

lemma decode_loop_lone_char:
  assumes "length s mod 4 = 1"
  shows "pos mod 4 = 0 \<Longrightarrow> pos \<le> length s \<Longrightarrow>
    decode_loop s pos ret =
      (case decode_loop (butlast s) pos ret of Inl e \<Rightarrow> Inl e | Inr bytes \<Rightarrow> Inl OutOfRange)"
proof (induction "length s - pos" arbitrary: pos ret rule: less_induct)
  case less
  from assms less.prems have lt: "pos < length s" by (cases "pos = length s") auto
  show ?case
  proof (cases "pos + 1 = length s")
    case True
    then have "decode_chunk s pos = Inl OutOfRange" by (simp add: decode_chunk_OutOfRange)
    with lt have "decode_loop s pos ret = Inl OutOfRange" by (simp add: decode_loop.simps)
    moreover have "length (butlast s) = pos" using True by simp
    then have "decode_loop (butlast s) pos ret = Inr ret"
      by (simp add: decode_loop.simps)
    ultimately show ?thesis by simp
  next
    case False
    with assms less.prems lt have far: "pos + 4 < length s" by presburger
    then have ch: "decode_chunk (butlast s) pos = decode_chunk s pos"
      by (rule decode_chunk_butlast)
    from far have lb: "pos < length (butlast s)" by simp
    show ?thesis
    proof (cases "decode_chunk s pos")
      case (Inl e)
      with ch lt lb show ?thesis
        by (simp add: decode_loop.simps [of s pos] decode_loop.simps [of "butlast s" pos]
            del: length_butlast)
    next
      case (Inr bytes)
      have "decode_loop s (pos + 4) (ret @ bytes) =
        (case decode_loop (butlast s) (pos + 4) (ret @ bytes) of
           Inl e \<Rightarrow> Inl e | Inr bytes \<Rightarrow> Inl OutOfRange)"
        using far less.prems by (intro less.hyps) auto
      with Inr ch lt lb show ?thesis
        by (simp add: decode_loop.simps [of s pos] decode_loop.simps [of "butlast s" pos]
            del: length_butlast)
    qed
  qed
qed

lemma decode_loop_not_OutOfRange:
  assumes "length s mod 4 \<noteq> 1"
  shows "pos mod 4 = 0 \<Longrightarrow> decode_loop s pos ret \<noteq> Inl OutOfRange"
proof (induction "length s - pos" arbitrary: pos ret rule: less_induct)
  case less
  show ?case
  proof (cases "pos < length s")
    case False
    then show ?thesis by (simp add: decode_loop.simps)
  next
    case True
    from assms less.prems have "pos + 1 \<noteq> length s" by presburger
    with True have ch: "decode_chunk s pos \<noteq> Inl OutOfRange"
      by (simp add: decode_chunk_OutOfRange)
    show ?thesis
    proof (cases "decode_chunk s pos")
      case (Inl e)
      with ch True show ?thesis by (simp add: decode_loop.simps [of s pos])
    next
      case (Inr bytes)
      have "decode_loop s (pos + 4) (ret @ bytes) \<noteq> Inl OutOfRange"
        using True less.prems by (intro less.hyps) auto
      with Inr True show ?thesis by (simp add: decode_loop.simps [of s pos])
    qed
  qed
qed

lemma decode_chunk_inspects:
  assumes "pos \<le> i" and "i < pos + 4" and "i < length s"
    and "s ! i \<notin> set encode_table" and "s ! i \<noteq> CHR ''=''" and "s ! i \<noteq> CHR ''.''"
    and "i = pos + 3 \<Longrightarrow> s ! (pos + 2) \<noteq> CHR ''='' \<and> s ! (pos + 2) \<noteq> CHR ''.''"
  shows "\<exists>e. decode_chunk s pos = Inl e"
proof -
  have bad: "pos_of_char (s ! i) = Inl InvalidInput"
    using assms(4) by (rule pos_of_char_not_in_table)
  consider "i = pos" | "i = pos + 1" | "i = pos + 2" | "i = pos + 3"
    using assms(1,2) by linarith
  then show ?thesis
  proof cases
    case 1
    with bad assms(3) show ?thesis
      by (auto simp: decode_chunk_def at_def split: sum.splits)
  next
    case 2
    with bad assms(3) show ?thesis
      by (auto simp: decode_chunk_def at_def split: sum.splits)
  next
    case 3
    with bad assms(3,5,6) show ?thesis
      by (auto simp: decode_chunk_def at_def Let_def split: sum.splits)
  next
    case 4
    with bad assms(3,5,6,7) show ?thesis
      by (auto simp: decode_chunk_def at_def Let_def split: sum.splits)
  qed
qed

lemma base64_decode_loop: "base64_decode s False = decode_loop s 0 []"
  by (cases "s = []") (simp_all add: base64_decode.simps decode_loop.simps)

lemma base64_decode_stripped:
  "base64_decode s remove_linebreaks =
   decode_loop (if remove_linebreaks then filter (\<lambda>c. c \<noteq> CHR 0x0A) s else s) 0 []"
  by (cases remove_linebreaks) (simp_all add: base64_decode_strip base64_decode_loop)

lemma decode_loop_inspects:
  assumes "i < length t"
    and "t ! i \<notin> set encode_table" and "t ! i \<noteq> CHR ''=''" and "t ! i \<noteq> CHR ''.''"
    and "i mod 4 = 3 \<Longrightarrow> t ! (i - 1) \<noteq> CHR ''='' \<and> t ! (i - 1) \<noteq> CHR ''.''"
  shows "pos mod 4 = 0 \<Longrightarrow> pos \<le> i \<Longrightarrow> \<exists>e. decode_loop t pos ret = Inl e"
proof (induction "length t - pos" arbitrary: pos ret rule: less_induct)
  case less
  from less.prems assms(1) have lt: "pos < length t" by simp
  show ?case
  proof (cases "i < pos + 4")
    case True
    have "t ! (pos + 2) \<noteq> CHR ''='' \<and> t ! (pos + 2) \<noteq> CHR ''.''" if "i = pos + 3"
    proof -
      from that less.prems(1) have "i mod 4 = 3" by presburger
      moreover from that have "i - 1 = pos + 2" by simp
      ultimately show ?thesis using assms(5) by simp
    qed
    then obtain e where "decode_chunk t pos = Inl e"
      using decode_chunk_inspects [OF less.prems(2) True assms(1-4)] by blast
    with lt show ?thesis by (simp add: decode_loop.simps [of t pos])
  next
    case False
    show ?thesis
    proof (cases "decode_chunk t pos")
      case (Inl e)
      with lt show ?thesis by (simp add: decode_loop.simps [of t pos])
    next
      case (Inr bytes)
      have "\<exists>e. decode_loop t (pos + 4) (ret @ bytes) = Inl e"
        using False lt less.prems by (intro less.hyps) auto
      with Inr lt show ?thesis by (simp add: decode_loop.simps [of t pos])
    qed
  qed
qed

text \<open>
  Claim C5 says that every input with a character outside the alphabet and padding set is
  rejected with the invalid-input error. As amended: let \<open>t\<close> be the input, after the
  removal of the newlines when the flag is set. If a character of \<open>t\<close> that is neither in
  the standard alphabet nor a padding character stands anywhere but in the fourth place of
  a chunk whose third character is a padding character, then decoding fails and returns no
  bytes; and the failure is the invalid-input error, unless that character is the last
  one of \<open>t\<close> and the length of \<open>t\<close> is 1 modulo 4 (then the chunk of that character
  has no second character). In the model a failure is \<open>Inl e\<close>, which carries no bytes.
\<close>

theorem invalid_character_rejected:
  assumes "t = (if remove_linebreaks then filter (\<lambda>c. c \<noteq> CHR 0x0A) s else s)"
    and "i < length t"
    and "t ! i \<notin> set encode_table" and "t ! i \<noteq> CHR ''=''" and "t ! i \<noteq> CHR ''.''"
    and "i mod 4 = 3 \<longrightarrow> t ! (i - 1) \<noteq> CHR ''='' \<and> t ! (i - 1) \<noteq> CHR ''.''"
  shows "(\<exists>e. base64_decode s remove_linebreaks = Inl e) \<and>
         (i + 1 < length t \<or> length t mod 4 \<noteq> 1 \<longrightarrow>
            base64_decode s remove_linebreaks = Inl InvalidInput)"
proof -
  have d: "base64_decode s remove_linebreaks = decode_loop t 0 []"
    by (simp only: base64_decode_stripped assms(1))
  obtain e where e: "decode_loop t 0 [] = Inl e"
    using decode_loop_inspects [OF assms(2-5), of 0 "[]"] assms(6) by auto
  have "e = InvalidInput" if "length t mod 4 \<noteq> 1"
    using decode_loop_not_OutOfRange [OF that, of 0 "[]"] e by (cases e) auto
  moreover have "e = InvalidInput" if m: "length t mod 4 = 1" and i: "i + 1 < length t"
  proof -
    let ?b = "butlast t"
    have ib: "i < length ?b" using i by simp
    have nb: "?b ! i = t ! i" using ib by (simp add: nth_butlast)
    have nb1: "?b ! (i - 1) = t ! (i - 1)" using ib by (simp add: nth_butlast)
    have p5: "?b ! (i - 1) \<noteq> CHR ''='' \<and> ?b ! (i - 1) \<noteq> CHR ''.''" if "i mod 4 = 3"
      using assms(6) that unfolding nb1 by blast
    have p2: "?b ! i \<notin> set encode_table" "?b ! i \<noteq> CHR ''=''" "?b ! i \<noteq> CHR ''.''"
      using assms(3-5) unfolding nb by blast+
    obtain e' where e': "decode_loop ?b 0 [] = Inl e'"
      using decode_loop_inspects [OF ib p2 p5, of 0 "[]"] by auto
    have "(length t - 1) mod 4 = 0" using m by presburger
    then have "length ?b mod 4 \<noteq> 1" by simp
    then have "decode_loop ?b 0 [] \<noteq> Inl OutOfRange"
      by (intro decode_loop_not_OutOfRange) simp_all
    with e' have "e' = InvalidInput" by (cases e') auto
    with e' e decode_loop_lone_char [OF m, of 0 "[]"] show ?thesis by simp
  qed
  ultimately show ?thesis using d e by auto
qed

text \<open>The example of the claim: \<open>!\<close> is the second character of \<open>A!B=\<close>.\<close>

theorem invalid_character_rejected_witness:
  "''A!B='' ! 1 \<notin> set encode_table \<and> length ''A!B='' mod 4 \<noteq> 1 \<and>
   base64_decode ''A!B='' False = Inl InvalidInput"
  using invalid_character_rejected [of "''A!B=''" False "''A!B=''" 1]
  by (simp add: encode_table_def)

text \<open>
  The claim as stated fails: \<open>?\<close> is not in the alphabet and is no padding character,
  and \<open>TQ.?\<close> decodes to \<open>M\<close>.
\<close>

theorem invalid_character_counterexample:
  "CHR ''?'' \<in> set ''TQ.?'' \<and> CHR ''?'' \<notin> set encode_table \<and>
   CHR ''?'' \<noteq> CHR ''='' \<and> CHR ''?'' \<noteq> CHR ''.'' \<and>
   base64_decode ''TQ.?'' False = Inr ''M''"
proof -
  have "base64_decode ''TQ.?'' False = Inr ''M''"
    by (simp add: run_decode del: drop_bit_and)
  then show ?thesis by (simp add: encode_table_def)
qed

text \<open>
  Claim C10 says that a non-empty input whose length (after the removal of the newlines
  when the flag is set) is 1 modulo 4 always fails with the out-of-range error of the read
  of the missing second character. As amended: such an input always fails and returns no
  bytes; the failure is that out-of-range error exactly when the input without its last
  character decodes without error, and otherwise it is the invalid-input error that the
  input without its last character fails with. The final chunk starts at the last
  position \<open>length t - 1\<close>, and the bounds-checked read \<open>at\<close> of its second character,
  one position further, is the error \<open>OutOfRange\<close>, not a character from beyond the end.
\<close>

theorem lone_final_character:
  assumes "t = (if remove_linebreaks then filter (\<lambda>c. c \<noteq> CHR 0x0A) s else s)"
    and "length t mod 4 = 1"
  shows "(\<exists>e. base64_decode s remove_linebreaks = Inl e) \<and>
         (base64_decode s remove_linebreaks = Inl OutOfRange \<longleftrightarrow>
            (\<exists>bytes. base64_decode (butlast t) False = Inr bytes)) \<and>
         (base64_decode s remove_linebreaks = Inl InvalidInput \<longleftrightarrow>
            base64_decode (butlast t) False = Inl InvalidInput) \<and>
         at t ((length t - 1) + 1) = Inl OutOfRange"
proof -
  have d: "base64_decode s remove_linebreaks = decode_loop t 0 []"
    by (simp only: base64_decode_stripped assms(1))
  have l: "decode_loop t 0 [] =
      (case decode_loop (butlast t) 0 [] of Inl e \<Rightarrow> Inl e | Inr bytes \<Rightarrow> Inl OutOfRange)"
    using decode_loop_lone_char [OF assms(2), of 0 "[]"] by simp
  have "(length t - 1) mod 4 = 0" using assms(2) by presburger
  then have "length (butlast t) mod 4 \<noteq> 1" by simp
  then have n: "decode_loop (butlast t) 0 [] \<noteq> Inl OutOfRange"
    by (intro decode_loop_not_OutOfRange) simp_all
  have a: "at t ((length t - 1) + 1) = Inl OutOfRange" by (simp add: at_def)
  show ?thesis
  proof (cases "decode_loop (butlast t) 0 []")
    case (Inl e)
    with n have "e = InvalidInput" by (cases e) auto
    with Inl d l a show ?thesis by (simp add: base64_decode_loop)
  next
    case (Inr bytes)
    with d l a show ?thesis by (simp add: base64_decode_loop)
  qed
qed

theorem lone_final_character_witness:
  "length ''TWFuT'' mod 4 = 1 \<and> base64_decode ''TWFuT'' False = Inl OutOfRange"
proof -
  have "base64_decode ''TWFu'' False = Inr ''Man''"
    by (simp add: run_decode del: drop_bit_and)
  then show ?thesis
    using lone_final_character [of "''TWFuT''" False "''TWFuT''"] by simp
qed

text \<open>
  The claim as stated fails: \<open>!!!!A\<close> has 5 characters, and decoding it fails with the
  invalid-input error of its first chunk, not with the out-of-range error.
\<close>

theorem lone_final_character_counterexample:
  "''!!!!A'' \<noteq> [] \<and> length ''!!!!A'' mod 4 = 1 \<and>
   base64_decode ''!!!!A'' False = Inl InvalidInput \<and>
   base64_decode ''!!!!A'' False \<noteq> Inl OutOfRange"
proof -
  have "base64_decode ''!!!!A'' False = Inl InvalidInput"
    by (simp add: run_decode del: drop_bit_and)
  then show ?thesis by simp
qed

text \<open>
  Claim C9. For every chunk whose third character is a padding character (\<open>=\<close> or
  \<open>.\<close>), the decoder emits only the chunk's first byte and never inspects the chunk's
  fourth character: the result of the chunk is a function of its first two characters,
  and replacing the fourth character by any character \<open>c\<close> changes neither the result
  of the chunk nor the result of \<open>base64_decode\<close>. For example \<open>TQ=!\<close> decodes to
  \<open>M\<close>.
\<close>

theorem padded_third_character:
  assumes "pos mod 4 = 0" and "pos + 2 < length s"
    and "s ! (pos + 2) = CHR ''='' \<or> s ! (pos + 2) = CHR ''.''"
  shows "decode_chunk s pos =
          (case pos_of_char (s ! (pos + 1)) of Inl e \<Rightarrow> Inl e | Inr pos_of_char_1 \<Rightarrow>
           case pos_of_char (s ! pos) of Inl e \<Rightarrow> Inl e | Inr pos_of_char_0 \<Rightarrow>
             Inr [char_of (push_bit 2 pos_of_char_0 + drop_bit 4 (pos_of_char_1 AND 0x30))]) \<and>
         decode_chunk (s[pos + 3 := c]) pos = decode_chunk s pos \<and>
         base64_decode (s[pos + 3 := c]) False = base64_decode s False \<and>
         base64_decode ''TQ=!'' False = Inr ''M''"
proof -
  have "base64_decode ''TQ=!'' False = Inr ''M''"
    by (simp add: run_decode del: drop_bit_and)
  moreover have "base64_decode (s[pos + 3 := c]) False = base64_decode s False"
    using decode_loop_update_fourth [OF assms, of 0 c "[]"] by (simp add: base64_decode_loop)
  ultimately show ?thesis
    using decode_chunk_padded [OF assms(2,3)] decode_chunk_update_fourth [OF assms(2,3), of c]
    by simp
qed

theorem padded_third_character_witness:
  "base64_decode ''TQ=A'' False = base64_decode ''TQ=!'' False \<and>
   base64_decode ''TQ=!'' False = Inr ''M''"
  using padded_third_character [of 0 "''TQ=!''" "CHR ''A''"] by simp

end
